theory Spec2Isabelle
  imports Main "HOL-Library.Word" "HOL-Library.Char_ord" "HOL-Library.List_Lexorder"
begin

section \<open>Incremental snapshot merge of cmd/restic/cmd\_incremental.go\<close>

text \<open>
  The development embeds \<^verbatim>\<open>makeTree\<close>, \<^verbatim>\<open>addNode\<close> and \<^verbatim>\<open>runIncremental\<close> of
  \<^verbatim>\<open>cmd/restic/cmd_incremental.go\<close> and \<^verbatim>\<open>includePatternOptions\<close> of
  \<^verbatim>\<open>cmd/restic/include.go\<close>. Go strings are byte strings and are compared bytewise;
  \<^typ>\<open>string\<close> with the lexicographic order on \<^typ>\<open>char list\<close> is the same order.
\<close>

subsection \<open>Data model\<close>

text \<open>\<^verbatim>\<open>restic.ID\<close> is a 32 byte array; \<^verbatim>\<open>restic.ID{}\<close> is the all-zero identifier.\<close>

type_synonym ID = "256 word"

text \<open>
  One directory entry (\<^verbatim>\<open>restic.Node\<close>). The merge reads \<^verbatim>\<open>Name\<close>, \<^verbatim>\<open>Type\<close>
  (a string, compared with \<^verbatim>\<open>"dir"\<close>) and \<^verbatim>\<open>Subtree\<close> (a pointer, nil when absent);
  every other field of the entry is the opaque \<open>Meta\<close>.
\<close>

record node =
  Name :: string
  Type :: string
  Meta :: nat
  Subtree :: "ID option"

type_synonym tree = "node list"

type_synonym builder = "node list"

datatype error =
    NotExist
  | StatError
  | TreeNotFound
  | DuplicateEntry
  | NothingToDo
  | ConfigurationError
  | OpenError
  | IndexError
  | NoSnapshotFound
  | NilTree
  | FlushError
  | SaveError

text \<open>
  The storage layer as the merge sees it: the tree objects by identifier, and the list
  of the calls made on it, oldest first.
\<close>

datatype event =
    LoadedTree ID
  | SavedTree ID tree
  | SavedUnpacked builder

record repository =
  trees :: "ID \<rightharpoonup> tree"
  calls :: "event list"

text \<open>What \<^verbatim>\<open>os.Stat\<close> returns for an existing path, as far as a node is built from it.\<close>

record fileinfo =
  fi_type :: string
  fi_meta :: nat

type_synonym filesystem = "string \<Rightarrow> error + fileinfo"

subsection \<open>Go standard library: strings, path/filepath, sort, os\<close>

definition strings_HasPrefix :: "string \<Rightarrow> string \<Rightarrow> bool" where
  "strings_HasPrefix s pre = (length s \<ge> length pre \<and> take (length pre) s = pre)"

text \<open>The elements of a path between its separators.\<close>

fun split_slash :: "string \<Rightarrow> string list" where
  "split_slash [] = [[]]"
| "split_slash (c # cs) =
     (if c = CHR ''/'' then [] # split_slash cs
      else (case split_slash cs of e # es \<Rightarrow> (c # e) # es | [] \<Rightarrow> [[c]]))"

fun join_slash :: "string list \<Rightarrow> string" where
  "join_slash [] = []"
| "join_slash [e] = e"
| "join_slash (e # es) = e @ ''/'' @ join_slash es"

text \<open>
  One element met by \<^verbatim>\<open>filepath.Clean\<close>; \<open>st\<close> holds the elements kept so far, last
  first. An empty element and \<^verbatim>\<open>.\<close> are dropped, \<^verbatim>\<open>..\<close> removes the element before it,
  is dropped at the root and is kept at the start of a relative path.
\<close>

definition clean_step :: "bool \<Rightarrow> string list \<Rightarrow> string \<Rightarrow> string list" where
  "clean_step rooted st e =
     (if e = [] \<or> e = ''.'' then st
      else if e = ''..'' then
        (case st of
           [] \<Rightarrow> (if rooted then [] else [''..''])
         | t # ts \<Rightarrow> (if t = ''..'' then ''..'' # st else ts))
      else e # st)"

definition filepath_Clean :: "string \<Rightarrow> string" where
  "filepath_Clean path =
     (let rooted = (path \<noteq> [] \<and> hd path = CHR ''/'');
          kept = rev (foldl (clean_step rooted) [] (split_slash path));
          out = (if rooted then ''/'' else []) @ join_slash kept
      in if out = [] then ''.'' else out)"

text \<open>\<^verbatim>\<open>filepath.Dir\<close>: the path up to and including its last separator, cleaned.\<close>

definition filepath_Dir :: "string \<Rightarrow> string" where
  "filepath_Dir path = filepath_Clean (rev (dropWhile (\<lambda>c. c \<noteq> CHR ''/'') (rev path)))"

text \<open>
  \<^verbatim>\<open>filepath.Base\<close>: \<^verbatim>\<open>.\<close> for the empty path; otherwise the trailing separators are
  stripped and the last element is returned, a single separator when nothing is left.
\<close>

definition filepath_Base :: "string \<Rightarrow> string" where
  "filepath_Base path =
     (if path = [] then ''.''
      else
        (let stripped = rev (dropWhile (\<lambda>c. c = CHR ''/'') (rev path));
             last_elem = rev (takeWhile (\<lambda>c. c \<noteq> CHR ''/'') (rev stripped))
         in if last_elem = [] then ''/'' else last_elem))"

definition sort_Strings :: "string list \<Rightarrow> string list" where
  "sort_Strings xs = sort xs"

definition os_Stat :: "filesystem \<Rightarrow> string \<Rightarrow> error + fileinfo" where
  "os_Stat fs path = fs path"

definition os_IsNotExist :: "error + fileinfo \<Rightarrow> bool" where
  "os_IsNotExist res = (res = Inl NotExist)"

subsection \<open>Tree container, builder and storage layer\<close>

text \<open>
  Modelled from the spec: \<^verbatim>\<open>restic.NodeFromFileInfo\<close> is not part of the sources at hand.
  The node of a path takes its name from the last element of the path and its type and
  metadata from the file information; it refers to no subtree.
\<close>

definition NodeFromFileInfo :: "string \<Rightarrow> fileinfo \<Rightarrow> error + node" where
  "NodeFromFileInfo path fi =
     Inr \<lparr>Name = filepath_Base path, Type = fi_type fi, Meta = fi_meta fi, Subtree = None\<rparr>"

text \<open>
  Modelled from the spec: \<^verbatim>\<open>Tree.Insert\<close> is not part of the sources at hand. It inserts
  preserving the order of the names and fails with \<open>DuplicateEntry\<close> when a node of the
  same name is present.
\<close>

definition Insert :: "tree \<Rightarrow> node \<Rightarrow> error + tree" where
  "Insert t n =
     (if Name n \<in> set (map Name t) then Inl DuplicateEntry
      else Inr (insort_key Name n t))"

text \<open>
  Modelled from the spec: \<^verbatim>\<open>TreeJSONBuilder\<close> is not part of the sources at hand. The
  builder accumulates the node sequence as it is assembled and finalizes it into an
  encoded form, kept here as the sequence itself.
\<close>

definition NewTreeJSONBuilder :: builder where
  "NewTreeJSONBuilder = []"

definition AddNode :: "builder \<Rightarrow> node \<Rightarrow> error + builder" where
  "AddNode tb n = Inr (tb @ [n])"

definition Finalize :: "builder \<Rightarrow> error + builder" where
  "Finalize tb = Inr tb"

definition NewTree :: "nat \<Rightarrow> tree" where
  "NewTree capacity = []"

text \<open>
  Modelled from the spec: \<^verbatim>\<open>restic.LoadTree\<close>, \<^verbatim>\<open>restic.SaveTree\<close> and
  \<^verbatim>\<open>Repository.SaveUnpacked\<close> are not part of the sources at hand. A tree is loaded by
  its identifier and the load fails when the store holds no such object. The identifier
  of a saved tree is a function \<open>H\<close> of its contents; an object already stored under
  that identifier is kept as it is (deduplication), since stored objects are immutable.
\<close>

definition LoadTree :: "repository \<Rightarrow> ID \<Rightarrow> repository \<times> (error + tree)" where
  "LoadTree r i =
     (let r' = r\<lparr>calls := calls r @ [LoadedTree i]\<rparr>
      in case trees r i of None \<Rightarrow> (r', Inl TreeNotFound) | Some t \<Rightarrow> (r', Inr t))"

definition SaveTree :: "(tree \<Rightarrow> ID) \<Rightarrow> repository \<Rightarrow> tree \<Rightarrow> repository \<times> (error + ID)" where
  "SaveTree H r t =
     (let i = H t;
          r' = r\<lparr>calls := calls r @ [SavedTree i t]\<rparr>
      in case trees r i of
           None \<Rightarrow> (r'\<lparr>trees := (trees r)(i \<mapsto> t)\<rparr>, Inr i)
         | Some old \<Rightarrow> (r', Inr i))"

definition SaveUnpacked :: "repository \<Rightarrow> builder \<Rightarrow> repository \<times> (error + unit)" where
  "SaveUnpacked r buf = (r\<lparr>calls := calls r @ [SavedUnpacked buf]\<rparr>, Inr ())"

subsection \<open>addNode\<close>

definition addNode :: "filesystem \<Rightarrow> string \<Rightarrow> builder \<Rightarrow> tree \<Rightarrow> error + (builder \<times> tree)" where
  "addNode fs path tb tree =
     (case os_Stat fs path of
        Inl err \<Rightarrow> Inl err
      | Inr fileInfo \<Rightarrow>
          (case NodeFromFileInfo path fileInfo of
             Inl err \<Rightarrow> Inl err
           | Inr newNode \<Rightarrow>
               (case Insert tree newNode of
                  Inl err \<Rightarrow> Inl err
                | Inr tree' \<Rightarrow>
                    (case AddNode tb newNode of
                       Inl err \<Rightarrow> Inl err
                     | Inr tb' \<Rightarrow> Inr (tb', tree')))))"


subsection \<open>makeTree\<close>

text \<open>
  The pair of calls \<^verbatim>\<open>tree.Insert(node)\<close>, \<^verbatim>\<open>tb.AddNode(node)\<close> that puts a node of the
  prior tree into the new tree and the builder.
\<close>

definition copyNode :: "builder \<Rightarrow> tree \<Rightarrow> node \<Rightarrow> error + (builder \<times> tree)" where
  "copyNode tb tree node =
     (case Insert tree node of
        Inl err \<Rightarrow> Inl err
      | Inr tree' \<Rightarrow>
          (case AddNode tb node of
             Inl err \<Rightarrow> Inl err
           | Inr tb' \<Rightarrow> Inr (tb', tree')))"

text \<open>
  The loop over the change-paths for one node of the prior tree. \<open>j\<close> is the index of the
  head of the remaining paths; the loop returns \<^verbatim>\<open>skipNode\<close>, the \<^verbatim>\<open>remove\<close> marks, the
  builder and the new tree.
\<close>

fun makeTree_paths ::
  "filesystem \<Rightarrow> string \<Rightarrow> node \<Rightarrow> string list \<Rightarrow> nat \<Rightarrow> bool \<Rightarrow> bool list \<Rightarrow> builder \<Rightarrow> tree
   \<Rightarrow> error + (bool \<times> bool list \<times> builder \<times> tree)" where
  "makeTree_paths fs dir node [] j skipNode remove tb tree = Inr (skipNode, remove, tb, tree)"
| "makeTree_paths fs dir node (path # rest) j skipNode remove tb tree =
     (if remove ! j then makeTree_paths fs dir node rest (Suc j) skipNode remove tb tree
      else if path = [] then makeTree_paths fs dir node rest (Suc j) skipNode remove tb tree
      else if dir @ Name node = path \<and> os_IsNotExist (os_Stat fs path)
        then makeTree_paths fs dir node rest (Suc j) True remove tb tree
      else
        (let skipNode' = (skipNode \<or> dir @ Name node = path)
         in if skipNode' \<or> (filepath_Dir (dir @ Name node) = filepath_Dir path
                             \<and> Name node > filepath_Base path)
            then (case addNode fs path tb tree of
                    Inl err \<Rightarrow> Inl err
                  | Inr (tb', tree') \<Rightarrow>
                      makeTree_paths fs dir node rest (Suc j) skipNode' (remove[j := True]) tb' tree')
            else makeTree_paths fs dir node rest (Suc j) skipNode' remove tb tree))"

text \<open>The change-paths not marked in \<^verbatim>\<open>remove\<close>, in the order of the list.\<close>

definition unremoved :: "string list \<Rightarrow> bool list \<Rightarrow> string list" where
  "unremoved includePaths remove =
     map (\<lambda>j. includePaths ! j) (filter (\<lambda>j. \<not> remove ! j) [0..<length includePaths])"

text \<open>The loop over \<^verbatim>\<open>keys\<close> that follows the last node of the prior tree.\<close>

fun makeTree_tail ::
  "filesystem \<Rightarrow> string \<Rightarrow> node \<Rightarrow> string list \<Rightarrow> builder \<Rightarrow> tree \<Rightarrow> error + (builder \<times> tree)" where
  "makeTree_tail fs dir node [] tb tree = Inr (tb, tree)"
| "makeTree_tail fs dir node (path # rest) tb tree =
     (if filepath_Dir (dir @ Name node) = filepath_Dir path
      then (case addNode fs path tb tree of
              Inl err \<Rightarrow> Inl err
            | Inr (tb', tree') \<Rightarrow> makeTree_tail fs dir node rest tb' tree')
      else makeTree_tail fs dir node rest tb tree)"

text \<open>The end of \<^verbatim>\<open>makeTree\<close>: finalize the builder, save the tree, save the encoded form.\<close>

definition saveNewTree ::
  "(tree \<Rightarrow> ID) \<Rightarrow> repository \<Rightarrow> builder \<Rightarrow> tree \<Rightarrow> repository \<times> (error + ID)" where
  "saveNewTree H repo tb tree =
     (case Finalize tb of
        Inl err \<Rightarrow> (repo, Inl err)
      | Inr treeJSON \<Rightarrow>
          (case SaveTree H repo tree of
             (repo1, Inl err) \<Rightarrow> (repo1, Inl err)
           | (repo1, Inr newID) \<Rightarrow>
               (case SaveUnpacked repo1 treeJSON of
                  (repo2, Inl err) \<Rightarrow> (repo2, Inl err)
                | (repo2, Inr u) \<Rightarrow> (repo2, Inr newID))))"

text \<open>Bounds used to show that the recursion of \<^verbatim>\<open>makeTree\<close> ends.\<close>

definition maxlen :: "string list \<Rightarrow> nat" where
  "maxlen xs = foldr (\<lambda>x m. max (length x) m) xs 0"

definition below :: "string \<Rightarrow> string list \<Rightarrow> string list" where
  "below dir ks = filter (\<lambda>p. strings_HasPrefix p dir) ks"

definition depth_left :: "string \<Rightarrow> string list \<Rightarrow> nat" where
  "depth_left dir ks = (if below dir ks = [] then 0 else 1 + maxlen (below dir ks) - length dir)"

definition makeTree_size :: "string \<Rightarrow> string list \<Rightarrow> nat" where
  "makeTree_size dir includePaths =
     (if includePaths = [] then 0 else 2 * depth_left dir includePaths + 2)"

definition nodes_size :: "string \<Rightarrow> string list \<Rightarrow> bool list \<Rightarrow> nat" where
  "nodes_size dir includePaths remove =
     (if unremoved includePaths remove = [] then 1
      else max 3 (2 * depth_left dir (unremoved includePaths remove) + 1))"

lemma maxlen_ge: "x \<in> set xs \<Longrightarrow> length x \<le> maxlen xs"
  by (induction xs) (auto simp: maxlen_def)

lemma maxlen_le: "(\<And>x. x \<in> set xs \<Longrightarrow> length x \<le> b) \<Longrightarrow> maxlen xs \<le> b"
  by (induction xs) (auto simp: maxlen_def)

lemma maxlen_mono: "set xs \<subseteq> set ys \<Longrightarrow> maxlen xs \<le> maxlen ys"
  by (rule maxlen_le) (auto intro: maxlen_ge)

lemma depth_left_mono:
  assumes "set xs \<subseteq> set ys"
  shows "depth_left dir xs \<le> depth_left dir ys"
proof -
  have sub: "set (below dir xs) \<subseteq> set (below dir ys)"
    using assms by (auto simp: below_def)
  show ?thesis
  proof (cases "below dir xs = []")
    case True
    then show ?thesis by (simp add: depth_left_def)
  next
    case False
    with sub have "below dir ys \<noteq> []" by auto
    with False maxlen_mono [OF sub] show ?thesis
      by (simp add: depth_left_def)
  qed
qed

lemma makeTree_paths_marks:
  "makeTree_paths fs dir node ps j skipNode remove tb tree = Inr (s, remove', tb', tree')
   \<Longrightarrow> remove ! k \<Longrightarrow> remove' ! k"
proof (induction ps arbitrary: j skipNode remove tb tree)
  case Nil
  then show ?case by simp
next
  case (Cons p ps)
  have upd: "(remove[j := True]) ! k" using Cons.prems(2)
    by (cases "j < length remove") (auto simp: nth_list_update list_update_beyond not_less)
  from Cons.prems Cons.IH upd show ?case
    by (auto simp: Let_def split: if_splits sum.splits prod.splits)
qed

lemma unremoved_subset:
  "(\<And>k. remove ! k \<Longrightarrow> remove' ! k) \<Longrightarrow> set (unremoved ps remove') \<subseteq> set (unremoved ps remove)"
  by (auto simp: unremoved_def)

lemma nodes_size_mono:
  assumes "\<And>k. remove ! k \<Longrightarrow> remove' ! k"
  shows "nodes_size dir ps remove' \<le> nodes_size dir ps remove"
proof -
  have sub: "set (unremoved ps remove') \<subseteq> set (unremoved ps remove)"
    using assms by (rule unremoved_subset)
  show ?thesis
  proof (cases "unremoved ps remove' = []")
    case True
    then show ?thesis by (simp add: nodes_size_def)
  next
    case False
    with sub have "unremoved ps remove \<noteq> []" by auto
    with False depth_left_mono [OF sub, of dir] show ?thesis
      by (simp add: nodes_size_def)
  qed
qed

lemma unremoved_initial:
  "unremoved ps (map (\<lambda>p. \<not> strings_HasPrefix p dir) ps) = below dir ps"
proof -
  have "filter (\<lambda>j. \<not> map (\<lambda>p. \<not> strings_HasPrefix p dir) ps ! j) [0..<length ps]
        = filter (\<lambda>j. strings_HasPrefix (ps ! j) dir) [0..<length ps]"
    by (rule filter_cong) auto
  then have "unremoved ps (map (\<lambda>p. \<not> strings_HasPrefix p dir) ps)
        = map ((!) ps) (filter (\<lambda>j. strings_HasPrefix (ps ! j) dir) [0..<length ps])"
    by (simp add: unremoved_def)
  also have "\<dots> = filter (\<lambda>p. strings_HasPrefix p dir) (map ((!) ps) [0..<length ps])"
    by (simp add: filter_map comp_def)
  also have "\<dots> = below dir ps"
    by (simp add: below_def map_nth)
  finally show ?thesis .
qed

lemma below_idem: "below dir (below dir ps) = below dir ps"
  by (simp add: below_def)

lemma nodes_size_initial:
  "ps \<noteq> [] \<Longrightarrow> nodes_size dir ps (map (\<lambda>p. \<not> strings_HasPrefix p dir) ps) < makeTree_size dir ps"
proof -
  assume ne: "ps \<noteq> []"
  show ?thesis
  proof (cases "below dir ps = []")
    case True
    with ne show ?thesis
      by (simp add: nodes_size_def makeTree_size_def unremoved_initial)
  next
    case False
    then obtain p where p: "p \<in> set (below dir ps)" by (cases "below dir ps") auto
    then have "length dir \<le> length p" by (auto simp: below_def strings_HasPrefix_def)
    with maxlen_ge [OF p] have "length dir \<le> maxlen (below dir ps)" by simp
    with False ne show ?thesis
      by (simp add: nodes_size_def makeTree_size_def unremoved_initial depth_left_def below_idem)
  qed
qed

lemma makeTree_size_child:
  assumes sub: "set keys \<subseteq> set (unremoved ps remove)"
  shows "makeTree_size (dir @ name @ ''/'') keys < nodes_size dir ps remove"
proof (cases "keys = []")
  case True
  then show ?thesis by (simp add: makeTree_size_def nodes_size_def)
next
  case False
  with sub have ne: "unremoved ps remove \<noteq> []" by auto
  let ?d = "dir @ name @ ''/''"
  show ?thesis
  proof (cases "below ?d keys = []")
    case True
    with False ne show ?thesis
      by (simp add: makeTree_size_def nodes_size_def depth_left_def)
  next
    case nonempty: False
    have sub': "set (below ?d keys) \<subseteq> set (below dir (unremoved ps remove))"
      using sub by (auto simp: below_def strings_HasPrefix_def) (metis append_eq_conv_conj append_take_drop_id take_take length_take)
    from nonempty obtain p where p: "p \<in> set (below ?d keys)" by (cases "below ?d keys") auto
    then have lp: "length ?d \<le> length p" by (auto simp: below_def strings_HasPrefix_def)
    have m1: "length ?d \<le> maxlen (below ?d keys)" using maxlen_ge [OF p] lp by simp
    have m2: "maxlen (below ?d keys) \<le> maxlen (below dir (unremoved ps remove))"
      by (rule maxlen_mono [OF sub'])
    from sub' nonempty have ne': "below dir (unremoved ps remove) \<noteq> []" by auto
    from m1 m2 False ne ne' nonempty show ?thesis
      by (simp add: makeTree_size_def nodes_size_def depth_left_def)
  qed
qed

text \<open>
  \<^verbatim>\<open>makeTree\<close> and the loop over the nodes of the prior tree. The loop carries the length
  \<open>n\<close> of the prior tree and the index \<open>i\<close> of the current node. Both return the
  repository as they leave it, also when they fail.
\<close>

function makeTree ::
  "(tree \<Rightarrow> ID) \<Rightarrow> filesystem \<Rightarrow> repository \<Rightarrow> ID \<Rightarrow> string \<Rightarrow> string list \<Rightarrow> repository \<times> (error + ID)"
and makeTree_nodes ::
  "(tree \<Rightarrow> ID) \<Rightarrow> filesystem \<Rightarrow> string \<Rightarrow> string list \<Rightarrow> nat \<Rightarrow> nat \<Rightarrow> node list
   \<Rightarrow> repository \<Rightarrow> bool list \<Rightarrow> builder \<Rightarrow> tree \<Rightarrow> repository \<times> (error + (builder \<times> tree))"
where
  "makeTree H fs repo nodeID dir includePaths =
     (if length includePaths = 0 then (repo, Inr nodeID)
      else
        (case LoadTree repo nodeID of
           (repo1, Inl err) \<Rightarrow> (repo1, Inl err)
         | (repo1, Inr curTree) \<Rightarrow>
             (case makeTree_nodes H fs dir includePaths (length curTree) 0 curTree repo1
                     (map (\<lambda>p. \<not> strings_HasPrefix p dir) includePaths)
                     NewTreeJSONBuilder (NewTree (length curTree + length includePaths)) of
                (repo2, Inl err) \<Rightarrow> (repo2, Inl err)
              | (repo2, Inr (tb, tree)) \<Rightarrow> saveNewTree H repo2 tb tree)))"
| "makeTree_nodes H fs dir includePaths n i [] repo remove tb tree = (repo, Inr (tb, tree))"
| "makeTree_nodes H fs dir includePaths n i (node # rest) repo remove tb tree =
     (case makeTree_paths fs dir node includePaths 0 False remove tb tree of
        Inl err \<Rightarrow> (repo, Inl err)
      | Inr (skipNode, remove', tb1, tree1) \<Rightarrow>
          (if skipNode
           then makeTree_nodes H fs dir includePaths n (Suc i) rest repo remove' tb1 tree1
           else if Type node \<noteq> ''dir'' then
             (case copyNode tb1 tree1 node of
                Inl err \<Rightarrow> (repo, Inl err)
              | Inr (tb2, tree2) \<Rightarrow>
                  makeTree_nodes H fs dir includePaths n (Suc i) rest repo remove' tb2 tree2)
           else
             (case makeTree H fs repo (case Subtree node of None \<Rightarrow> 0 | Some s \<Rightarrow> s)
                     (dir @ Name node @ ''/'') (sort_Strings (unremoved includePaths remove')) of
                (repo1, Inl err) \<Rightarrow> (repo1, Inl err)
              | (repo1, Inr newID) \<Rightarrow>
                  (case copyNode tb1 tree1 (node\<lparr>Subtree := Some newID\<rparr>) of
                     Inl err \<Rightarrow> (repo1, Inl err)
                   | Inr (tb2, tree2) \<Rightarrow>
                       (if i = n - 1 then
                          (case makeTree_tail fs dir node
                                  (sort_Strings (unremoved includePaths remove')) tb2 tree2 of
                             Inl err \<Rightarrow> (repo1, Inl err)
                           | Inr (tb3, tree3) \<Rightarrow>
                               makeTree_nodes H fs dir includePaths n (Suc i) rest repo1 remove' tb3 tree3)
                        else
                          makeTree_nodes H fs dir includePaths n (Suc i) rest repo1 remove' tb2 tree2)))))"
  by pat_completeness auto

termination
proof (relation "inv_image (less_than <*lex*> less_than)
    (\<lambda>x. case x of
       Inl (H, fs, repo, nodeID, dir, includePaths) \<Rightarrow> (makeTree_size dir includePaths, 0)
     | Inr (H, fs, dir, includePaths, n, i, nodes, repo, remove, tb, tree) \<Rightarrow>
         (nodes_size dir includePaths remove, length nodes))", goal_cases)
  case 1
  then show ?case by auto
next
  case (2 H fs repo nodeID dir includePaths x xa curTree)
  then show ?case by (simp add: nodes_size_initial)
next
  case (3 H fs dir includePaths n i node rest repo remove tb tree x skipNode y remove' z tb1 tree1)
  have "nodes_size dir includePaths remove' \<le> nodes_size dir includePaths remove"
    by (rule nodes_size_mono) (use 3 in \<open>auto dest: makeTree_paths_marks\<close>)
  then show ?case by auto
next
  case (4 H fs dir includePaths n i node rest repo remove tb tree x skipNode y remove' z tb1 tree1)
  have "nodes_size dir includePaths remove' \<le> nodes_size dir includePaths remove"
    by (rule nodes_size_mono) (use 4 in \<open>auto dest: makeTree_paths_marks\<close>)
  then show ?case by auto
next
  case (5 H fs dir includePaths n i node rest repo remove tb tree x skipNode y remove' z tb1 tree1)
  have "set (sort_Strings (unremoved includePaths remove')) \<subseteq> set (unremoved includePaths remove)"
    unfolding sort_Strings_def set_sort
    by (rule unremoved_subset) (use 5 in \<open>auto dest: makeTree_paths_marks\<close>)
  from makeTree_size_child [OF this] show ?case by auto
next
  case (6 H fs dir includePaths n i node rest repo remove tb tree x skipNode y remove' z tb1 tree1)
  have "nodes_size dir includePaths remove' \<le> nodes_size dir includePaths remove"
    by (rule nodes_size_mono) (use 6 in \<open>auto dest: makeTree_paths_marks\<close>)
  then show ?case by auto
next
  case (7 H fs dir includePaths n i node rest repo remove tb tree x skipNode y remove' z tb1 tree1)
  have "nodes_size dir includePaths remove' \<le> nodes_size dir includePaths remove"
    by (rule nodes_size_mono) (use 7 in \<open>auto dest: makeTree_paths_marks\<close>)
  then show ?case by auto
qed


subsection \<open>Include options and runIncremental\<close>





record snapshot =
  Paths :: "string list"
  Tags :: "string list"
  Hostname :: string
  Time :: nat
  Tree :: "ID option"

text \<open>
  Modelled from the spec: the repository handle, its lock, the index, the snapshot
  directory service and the upload pipeline are not part of the sources at hand. The
  world of the command holds the repository, whether it can be opened, whether its index
  can be read, the snapshot that \<^verbatim>\<open>FindLatest\<close> resolves to, whether the pending
  uploads complete, whether a snapshot can be written, the clock, and the steps
  performed so far, oldest first.
\<close>

datatype step =
    OpenedWithAppendLock
  | LoadedIndex
  | FoundLatest
  | StartedPackUploader
  | Flushed
  | SavedSnapshot snapshot
  | Unlocked











section \<open>Properties of the merge\<close>

subsection \<open>Notions used in the statements\<close>

text \<open>A tree is in order when its names ascend strictly; no name then occurs twice.\<close>

definition name_sorted :: "tree \<Rightarrow> bool" where
  "name_sorted t = sorted_wrt (<) (map Name t)"

text \<open>The trees passed to \<^verbatim>\<open>SaveTree\<close> between the repository \<open>r\<close> and its later state \<open>r'\<close>.\<close>

definition saved_during :: "repository \<Rightarrow> repository \<Rightarrow> tree list" where
  "saved_during r r' =
     concat (map (\<lambda>e. case e of SavedTree i t \<Rightarrow> [t] | _ \<Rightarrow> [])
       (drop (length (calls r)) (calls r')))"

definition saves_sorted :: "repository \<Rightarrow> repository \<Rightarrow> bool" where
  "saves_sorted r r' =
     (\<exists>evs. calls r' = calls r @ evs \<and> (\<forall>i t. SavedTree i t \<in> set evs \<longrightarrow> name_sorted t))"

text \<open>
  A node of the prior tree as the merge copies it when no change-path concerns it: a
  directory carries the identifier of its subtree, the zero identifier when it had none.
\<close>

definition carried :: "node \<Rightarrow> node" where
  "carried n =
     (if Type n \<noteq> ''dir'' then n
      else n\<lparr>Subtree := Some (case Subtree n of None \<Rightarrow> 0 | Some s \<Rightarrow> s)\<rparr>)"

text \<open>
  The marks of a change-path list with an empty string put in at position \<open>k\<close>: the
  empty string is marked, the other marks keep their order. \<open>marked_at\<close> does the same
  to the marks that the loop over the change-paths returns.
\<close>

definition blank_at :: "nat \<Rightarrow> bool list \<Rightarrow> bool list" where
  "blank_at k remove = take k remove @ True # drop k remove"

definition marked_at ::
  "nat \<Rightarrow> error + (bool \<times> bool list \<times> builder \<times> tree)
   \<Rightarrow> error + (bool \<times> bool list \<times> builder \<times> tree)" where
  "marked_at k res =
     (case res of
        Inl err \<Rightarrow> Inl err
      | Inr (s, remove, tb, tree) \<Rightarrow> Inr (s, blank_at k remove, tb, tree))"

text \<open>Concrete nodes, identifier function and filesystem for the examples.\<close>

definition file_node :: "string \<Rightarrow> node" where
  "file_node name = \<lparr>Name = name, Type = ''file'', Meta = 0, Subtree = None\<rparr>"

definition dir_node :: "string \<Rightarrow> ID \<Rightarrow> node" where
  "dir_node name sub = \<lparr>Name = name, Type = ''dir'', Meta = 0, Subtree = Some sub\<rparr>"

definition size_hash :: "tree \<Rightarrow> ID" where
  "size_hash t = 100 + of_nat (length t)"

definition files_on_disk :: "string list \<Rightarrow> filesystem" where
  "files_on_disk ps path =
     (if path \<in> set ps then Inr \<lparr>fi_type = ''file'', fi_meta = 1\<rparr> else Inl NotExist)"

subsection \<open>Auxiliary facts\<close>

declare makeTree.simps [simp del]

lemma makeTree_Nil [simp]: "makeTree H fs repo nodeID dir [] = (repo, Inr nodeID)"
  by (simp add: makeTree.simps)

lemma addNode_inv:
  assumes ins: "\<forall>t n t'. I t \<longrightarrow> Insert t n = Inr t' \<longrightarrow> I t'"
    and "I tree" and "addNode fs path tb tree = Inr (tb', tree')"
  shows "I tree'"
  using assms(2,3) ins
  by (fastforce simp: addNode_def NodeFromFileInfo_def AddNode_def split: sum.splits)

lemma copyNode_inv:
  assumes ins: "\<forall>t n t'. I t \<longrightarrow> Insert t n = Inr t' \<longrightarrow> I t'"
    and "I tree" and "copyNode tb tree node = Inr (tb', tree')"
  shows "I tree'"
  using assms(2,3) ins
  by (fastforce simp: copyNode_def AddNode_def split: sum.splits)

lemma makeTree_paths_inv:
  assumes ins: "\<forall>t n t'. I t \<longrightarrow> Insert t n = Inr t' \<longrightarrow> I t'"
  shows "I tree \<Longrightarrow> makeTree_paths fs dir node ps j skipNode remove tb tree = Inr (s, remove', tb', tree')
    \<Longrightarrow> I tree'"
proof (induction ps arbitrary: j skipNode remove tb tree)
  case Nil
  then show ?case by simp
next
  case (Cons p ps)
  show ?case
  proof (cases "addNode fs p tb tree")
    case (Inl err)
    with Cons show ?thesis
      by (auto simp: Let_def split: if_splits)
  next
    case (Inr out)
    obtain tb1 tree1 where out: "out = (tb1, tree1)" by (cases out)
    have "I tree1" using addNode_inv [where I = I, OF ins Cons.prems(1)] Inr out by blast
    with Cons Inr out show ?thesis
      by (auto simp: Let_def split: if_splits)
  qed
qed

lemma makeTree_tail_inv:
  assumes ins: "\<forall>t n t'. I t \<longrightarrow> Insert t n = Inr t' \<longrightarrow> I t'"
  shows "I tree \<Longrightarrow> makeTree_tail fs dir node ps tb tree = Inr (tb', tree') \<Longrightarrow> I tree'"
proof (induction ps arbitrary: tb tree)
  case Nil
  then show ?case by simp
next
  case (Cons p ps)
  show ?case
  proof (cases "addNode fs p tb tree")
    case (Inl err)
    with Cons show ?thesis
      by (auto split: if_splits)
  next
    case (Inr out)
    obtain tb1 tree1 where out: "out = (tb1, tree1)" by (cases out)
    have "I tree1" using addNode_inv [where I = I, OF ins Cons.prems(1)] Inr out by blast
    with Cons Inr out show ?thesis
      by (auto split: if_splits)
  qed
qed

lemma makeTree_invariant:
  fixes R :: "repository \<Rightarrow> repository \<Rightarrow> bool" and I :: "tree \<Rightarrow> bool"
  assumes R_refl: "\<And>r. R r r"
    and R_trans: "\<And>a b c. R a b \<Longrightarrow> R b c \<Longrightarrow> R a c"
    and load: "\<And>r i r' res. LoadTree r i = (r', res) \<Longrightarrow> R r r'"
    and save: "\<And>H r tb t. I t \<Longrightarrow> R r (fst (saveNewTree H r tb t))"
    and ins: "\<forall>t n t'. I t \<longrightarrow> Insert t n = Inr t' \<longrightarrow> I t'"
    and empty: "I []"
  shows "R repo (fst (makeTree H fs repo nodeID dir includePaths))"
    and "I tree \<Longrightarrow>
      R repo (fst (makeTree_nodes H fs dir includePaths n i nodes repo remove tb tree)) \<and>
      (\<forall>tb' tree'. snd (makeTree_nodes H fs dir includePaths n i nodes repo remove tb tree)
          = Inr (tb', tree') \<longrightarrow> I tree')"
proof (induction H fs repo nodeID dir includePaths and H fs dir includePaths n i nodes repo remove tb tree
    rule: makeTree_makeTree_nodes.induct)
  case (1 H fs repo nodeID dir includePaths)
  show ?case
  proof (cases "length includePaths = 0")
    case True
    then show ?thesis by (simp add: R_refl)
  next
    case False
    obtain repo1 res where L: "LoadTree repo nodeID = (repo1, res)"
      by (cases "LoadTree repo nodeID")
    have k1: "R repo repo1" using L by (rule load)
    show ?thesis
    proof (cases res)
      case (Inl err)
      with False L k1 show ?thesis by (simp add: makeTree.simps)
    next
      case (Inr curTree)
      let ?loop = "makeTree_nodes H fs dir includePaths (length curTree) 0 curTree repo1
           (map (\<lambda>p. \<not> strings_HasPrefix p dir) includePaths)
           NewTreeJSONBuilder (NewTree (length curTree + length includePaths))"
      obtain repo2 res2 where N: "?loop = (repo2, res2)" by force
      have start: "I (NewTree (length curTree + length includePaths))"
        by (simp add: NewTree_def empty)
      note IH = "1" [OF False L [symmetric] Inr start]
      have k2: "R repo repo2"
        using IH N k1 R_trans by auto
      show ?thesis
      proof (cases res2)
        case (Inl err)
        with False L Inr N k2 show ?thesis by (simp add: makeTree.simps)
      next
        case res2: (Inr out)
        obtain tb' tree' where out: "out = (tb', tree')" by (cases out)
        have "I tree'" using IH N res2 out by simp
        then have "R repo2 (fst (saveNewTree H repo2 tb' tree'))" by (rule save)
        with k2 have "R repo (fst (saveNewTree H repo2 tb' tree'))" by (rule R_trans)
        with False L Inr N res2 out show ?thesis by (simp add: makeTree.simps)
      qed
    qed
  qed
next
  case (2 H fs dir includePaths n i repo remove tb tree)
  then show ?case by (simp add: R_refl)
next
  case (3 H fs dir includePaths n i node rest repo remove tb tree)
  note IH = "3.IH"
  note tree = "3.prems"
  let ?keys = "sort_Strings (unremoved includePaths remove)"
  show ?case
  proof (cases "makeTree_paths fs dir node includePaths 0 False remove tb tree")
    case (Inl err)
    then show ?thesis by (simp add: R_refl)
  next
    case P: (Inr b)
    obtain skipNode remove' tb1 tree1 where b: "b = (skipNode, remove', tb1, tree1)"
      by (cases b) auto
    have I1: "I tree1"
      using makeTree_paths_inv [where I = I, OF ins tree] P b by blast
    show ?thesis
    proof (cases skipNode)
      case True
      from IH(1) [OF P b [symmetric] refl refl True I1] P b True
      show ?thesis by simp
    next
      case noskip: False
      show ?thesis
      proof (cases "Type node \<noteq> ''dir''")
        case True
        show ?thesis
        proof (cases "copyNode tb1 tree1 node")
          case (Inl err)
          with P b noskip True show ?thesis by (simp add: R_refl)
        next
          case C: (Inr c)
          obtain tb2 tree2 where c: "c = (tb2, tree2)" by (cases c)
          have I2: "I tree2" using copyNode_inv [where I = I, OF ins I1] C c by blast
          from IH(2) [OF P b [symmetric] refl refl noskip True C c [symmetric] I2] P b noskip True C c
          show ?thesis by simp
        qed
      next
        case isdir: False
        let ?sub = "case Subtree node of None \<Rightarrow> 0 | Some s \<Rightarrow> s"
        let ?keys = "sort_Strings (unremoved includePaths remove')"
        obtain repo1 res1 where M: "makeTree H fs repo ?sub (dir @ Name node @ ''/'') ?keys = (repo1, res1)"
          by force
        have R1: "R repo repo1"
          using IH(3) [OF P b [symmetric] refl refl noskip isdir] M by simp
        show ?thesis
        proof (cases res1)
          case (Inl err)
          with P b noskip isdir M R1 show ?thesis by simp
        next
          case newID: (Inr newID)
          show ?thesis
          proof (cases "copyNode tb1 tree1 (node\<lparr>Subtree := Some newID\<rparr>)")
            case (Inl err)
            with P b noskip isdir M R1 newID show ?thesis by simp
          next
            case C: (Inr c)
            obtain tb2 tree2 where c: "c = (tb2, tree2)" by (cases c)
            have I2: "I tree2" using copyNode_inv [where I = I, OF ins I1] C c by blast
            show ?thesis
            proof (cases "i = n - 1")
              case last: True
              show ?thesis
              proof (cases "makeTree_tail fs dir node ?keys tb2 tree2")
                case (Inl err)
                with P b noskip isdir M R1 newID C c last show ?thesis by simp
              next
                case T: (Inr d)
                obtain tb3 tree3 where d: "d = (tb3, tree3)" by (cases d)
                have I3: "I tree3" using makeTree_tail_inv [where I = I, OF ins I2] T d by blast
                from IH(4) [OF P b [symmetric] refl refl noskip isdir M [symmetric] newID C
                    c [symmetric] last T d [symmetric] I3]
                  P b noskip isdir M R1 newID C c last T d R_trans
                show ?thesis by auto
              qed
            next
              case notlast: False
              from IH(5) [OF P b [symmetric] refl refl noskip isdir M [symmetric] newID C
                  c [symmetric] notlast I2]
                P b noskip isdir M R1 newID C c notlast R_trans
              show ?thesis by auto
            qed
          qed
        qed
      qed
    qed
  qed
qed

text \<open>The equations that evaluate a merge on concrete data.\<close>

lemmas run_defs = file_node_def dir_node_def size_hash_def files_on_disk_def makeTree.simps LoadTree_def SaveTree_def SaveUnpacked_def saveNewTree_def
   strings_HasPrefix_def os_Stat_def os_IsNotExist_def filepath_Dir_def filepath_Base_def filepath_Clean_def clean_step_def addNode_def
   Let_def NewTree_def NewTreeJSONBuilder_def copyNode_def Insert_def AddNode_def Finalize_def NodeFromFileInfo_def unremoved_def sort_Strings_def

lemma LoadTree_trees: "LoadTree r i = (r', res) \<Longrightarrow> trees r' = trees r"
  by (auto simp: LoadTree_def Let_def split: option.splits)

lemma saveNewTree_keeps: "trees r \<subseteq>\<^sub>m trees (fst (saveNewTree H r tb t))"
  by (auto simp: saveNewTree_def Finalize_def SaveTree_def SaveUnpacked_def Let_def map_le_def
      split: option.splits)

lemma makeTree_keeps: "trees repo \<subseteq>\<^sub>m trees (fst (makeTree H fs repo nodeID dir includePaths))"
proof (rule makeTree_invariant(1) [where I = "\<lambda>t. True" and R = "\<lambda>r r'. trees r \<subseteq>\<^sub>m trees r'"])
  show "\<And>a b c. trees a \<subseteq>\<^sub>m trees b \<Longrightarrow> trees b \<subseteq>\<^sub>m trees c \<Longrightarrow> trees a \<subseteq>\<^sub>m trees c"
    by (rule map_le_trans)
  show "\<And>r i r' res. LoadTree r i = (r', res) \<Longrightarrow> trees r \<subseteq>\<^sub>m trees r'"
    by (simp add: LoadTree_trees)
  show "\<And>H r tb t. True \<Longrightarrow> trees r \<subseteq>\<^sub>m trees (fst (saveNewTree H r tb t))"
    by (rule saveNewTree_keeps)
qed simp_all

lemma Insert_name_sorted:
  "name_sorted t \<Longrightarrow> Insert t n = Inr t' \<Longrightarrow> name_sorted t'"
proof -
  have "Name n \<notin> set (map Name t) \<Longrightarrow> sorted_wrt (<) (map Name t)
      \<Longrightarrow> sorted_wrt (<) (map Name (insort_key Name n t))"
    by (induction t) (auto simp: set_insort_key)
  then show "name_sorted t \<Longrightarrow> Insert t n = Inr t' \<Longrightarrow> name_sorted t'"
    by (auto simp: Insert_def name_sorted_def split: if_splits)
qed

lemma saves_sorted_refl: "saves_sorted r r"
  by (simp add: saves_sorted_def)

lemma saves_sorted_trans: "saves_sorted a b \<Longrightarrow> saves_sorted b c \<Longrightarrow> saves_sorted a c"
  by (fastforce simp: saves_sorted_def)

lemma LoadTree_saves_sorted: "LoadTree r i = (r', res) \<Longrightarrow> saves_sorted r r'"
  by (auto simp: LoadTree_def Let_def saves_sorted_def split: option.splits)

lemma saveNewTree_saves_sorted: "name_sorted t \<Longrightarrow> saves_sorted r (fst (saveNewTree H r tb t))"
  by (auto simp: saveNewTree_def Finalize_def SaveTree_def SaveUnpacked_def Let_def saves_sorted_def
      split: option.splits)

lemma makeTree_saves_sorted:
  "saves_sorted repo (fst (makeTree H fs repo nodeID dir includePaths))"
proof (rule makeTree_invariant(1) [where I = name_sorted and R = saves_sorted])
  show "\<And>a b c. saves_sorted a b \<Longrightarrow> saves_sorted b c \<Longrightarrow> saves_sorted a c"
    by (rule saves_sorted_trans)
  show "\<forall>t n t'. name_sorted t \<longrightarrow> Insert t n = Inr t' \<longrightarrow> name_sorted t'"
    by (blast intro: Insert_name_sorted)
  show "name_sorted []" by (simp add: name_sorted_def)
qed (simp_all add: saves_sorted_refl LoadTree_saves_sorted saveNewTree_saves_sorted)

lemma saved_during_sorted: "saves_sorted r r' \<Longrightarrow> t \<in> set (saved_during r r') \<Longrightarrow> name_sorted t"
  by (auto simp: saves_sorted_def saved_during_def split: event.splits)

lemma makeTree_nodes_sorted:
  assumes "name_sorted tree"
  shows "saves_sorted repo (fst (makeTree_nodes H fs dir includePaths n i nodes repo remove tb tree)) \<and>
      (\<forall>tb' tree'. snd (makeTree_nodes H fs dir includePaths n i nodes repo remove tb tree)
          = Inr (tb', tree') \<longrightarrow> name_sorted tree')"
proof (rule makeTree_invariant(2) [where I = name_sorted and R = saves_sorted])
  show "\<And>a b c. saves_sorted a b \<Longrightarrow> saves_sorted b c \<Longrightarrow> saves_sorted a c"
    by (rule saves_sorted_trans)
  show "\<forall>t n t'. name_sorted t \<longrightarrow> Insert t n = Inr t' \<longrightarrow> name_sorted t'"
    by (blast intro: Insert_name_sorted)
  show "name_sorted []" by (simp add: name_sorted_def)
qed (simp_all add: assms saves_sorted_refl LoadTree_saves_sorted saveNewTree_saves_sorted)

lemma makeTree_returns_saved:
  assumes ne: "includePaths \<noteq> []"
    and ok: "snd (makeTree H fs repo nodeID dir includePaths) = Inr newID"
  shows "\<exists>t. name_sorted t \<and> newID = H t
           \<and> t \<in> set (saved_during repo (fst (makeTree H fs repo nodeID dir includePaths)))"
proof -
  obtain repo1 res where L: "LoadTree repo nodeID = (repo1, res)"
    by (cases "LoadTree repo nodeID")
  have c1: "calls repo1 = calls repo @ [LoadedTree nodeID]"
    using L by (auto simp: LoadTree_def Let_def split: option.splits)
  show ?thesis
  proof (cases res)
    case (Inl err)
    with ne L ok show ?thesis by (simp add: makeTree.simps)
  next
    case (Inr curTree)
    let ?loop = "makeTree_nodes H fs dir includePaths (length curTree) 0 curTree repo1
           (map (\<lambda>p. \<not> strings_HasPrefix p dir) includePaths)
           NewTreeJSONBuilder (NewTree (length curTree + length includePaths))"
    obtain repo2 res2 where N: "?loop = (repo2, res2)" by force
    have "name_sorted (NewTree (length curTree + length includePaths))"
      by (simp add: NewTree_def name_sorted_def)
    from makeTree_nodes_sorted [OF this, of repo1 H fs dir includePaths "length curTree" 0 curTree
        "map (\<lambda>p. \<not> strings_HasPrefix p dir) includePaths" NewTreeJSONBuilder] N
    have s2: "saves_sorted repo1 repo2"
      and out: "\<And>tb' tree'. res2 = Inr (tb', tree') \<Longrightarrow> name_sorted tree'"
      by simp_all
    from s2 obtain evs where c2: "calls repo2 = calls repo1 @ evs"
      by (auto simp: saves_sorted_def)
    show ?thesis
    proof (cases res2)
      case (Inl err)
      with ne L Inr N ok show ?thesis by (simp add: makeTree.simps)
    next
      case res2: (Inr pair)
      obtain tb' tree' where pair: "pair = (tb', tree')" by (cases pair)
      have sorted: "name_sorted tree'" using out res2 pair by simp
      have run: "makeTree H fs repo nodeID dir includePaths = saveNewTree H repo2 tb' tree'"
        using ne L Inr N res2 pair by (simp add: makeTree.simps)
      have calls: "calls (fst (saveNewTree H repo2 tb' tree'))
          = calls repo @ [LoadedTree nodeID] @ evs @ [SavedTree (H tree') tree', SavedUnpacked tb']"
        using c1 c2
        by (simp add: saveNewTree_def Finalize_def SaveTree_def SaveUnpacked_def Let_def
            split: option.splits)
      have ret: "snd (saveNewTree H repo2 tb' tree') = Inr (H tree')"
        by (simp add: saveNewTree_def Finalize_def SaveTree_def SaveUnpacked_def Let_def
            split: option.splits)
      have "tree' \<in> set (saved_during repo (fst (saveNewTree H repo2 tb' tree')))"
        by (simp add: saved_during_def calls)
      with sorted ret ok run show ?thesis by auto
    qed
  qed
qed

text \<open>A directory none of whose change-paths is below it.\<close>

lemma makeTree_paths_all_removed:
  "(\<And>k. j \<le> k \<Longrightarrow> k < j + length ps \<Longrightarrow> remove ! k)
   \<Longrightarrow> makeTree_paths fs dir node ps j skipNode remove tb tree = Inr (skipNode, remove, tb, tree)"
proof (induction ps arbitrary: j)
  case Nil
  show ?case by simp
next
  case (Cons p ps)
  have "remove ! j" using Cons.prems [of j] by simp
  moreover have "makeTree_paths fs dir node ps (Suc j) skipNode remove tb tree
      = Inr (skipNode, remove, tb, tree)"
    by (rule Cons.IH) (use Cons.prems in auto)
  ultimately show ?case by simp
qed

lemma unremoved_all_removed:
  "(\<And>k. k < length ps \<Longrightarrow> remove ! k) \<Longrightarrow> unremoved ps remove = []"
  by (simp add: unremoved_def filter_empty_conv)

lemma insort_key_last:
  "(\<And>y. y \<in> set xs \<Longrightarrow> f y < f x) \<Longrightarrow> insort_key f x xs = xs @ [x]"
  by (induction xs) (auto simp: not_le [symmetric])

lemma copyNode_last:
  assumes "\<And>m. m \<in> set tree \<Longrightarrow> Name m < Name node"
  shows "copyNode tb tree node = Inr (tb @ [node], tree @ [node])"
proof -
  have "Name node \<notin> set (map Name tree)" using assms by fastforce
  moreover have "insort_key Name node tree = tree @ [node]"
    using assms by (rule insort_key_last)
  ultimately show ?thesis
    by (simp add: copyNode_def Insert_def AddNode_def)
qed

lemma Name_carried [simp]: "Name (carried n) = Name n"
  by (simp add: carried_def)

lemma makeTree_nodes_all_removed:
  assumes all: "\<And>k. k < length ps \<Longrightarrow> remove ! k"
  shows "name_sorted (tree @ nodes) \<Longrightarrow>
    makeTree_nodes H fs dir ps n i nodes repo remove tb tree
      = (repo, Inr (tb @ map carried nodes, tree @ map carried nodes))"
proof (induction nodes arbitrary: i tb tree)
  case Nil
  show ?case by simp
next
  case (Cons node rest)
  have loop: "makeTree_paths fs dir node ps 0 False remove tb tree = Inr (False, remove, tb, tree)"
    by (rule makeTree_paths_all_removed) (use all in auto)
  have keys: "sort_Strings (unremoved ps remove) = []"
    using unremoved_all_removed [of ps remove] all by (simp add: sort_Strings_def)
  have less: "\<And>m. m \<in> set tree \<Longrightarrow> Name m < Name (carried node)"
    using Cons.prems by (auto simp: name_sorted_def sorted_wrt_append)
  have copy: "copyNode tb tree (carried node) = Inr (tb @ [carried node], tree @ [carried node])"
    using less by (rule copyNode_last)
  have "name_sorted ((tree @ [carried node]) @ rest)"
    using Cons.prems by (simp add: name_sorted_def)
  from Cons.IH [OF this]
  have rest: "\<And>i. makeTree_nodes H fs dir ps n i rest repo remove (tb @ [carried node]) (tree @ [carried node])
      = (repo, Inr (tb @ map carried (node # rest), tree @ map carried (node # rest)))"
    by simp
  show ?case
  proof (cases "Type node \<noteq> ''dir''")
    case True
    then have "carried node = node" by (simp add: carried_def)
    with loop copy rest True show ?thesis by simp
  next
    case False
    then have c: "node\<lparr>Subtree := Some (case Subtree node of None \<Rightarrow> 0 | Some s \<Rightarrow> s)\<rparr> = carried node"
      by (simp add: carried_def)
    with loop keys copy rest False show ?thesis by simp
  qed
qed

text \<open>Empty strings in the change-path list.\<close>

lemma blank_at_nth_after: "k \<le> length remove \<Longrightarrow> k \<le> j \<Longrightarrow> blank_at k remove ! Suc j = remove ! j"
  by (simp add: blank_at_def nth_append Suc_diff_le)

lemma blank_at_nth_before: "k \<le> length remove \<Longrightarrow> j < k \<Longrightarrow> blank_at k remove ! j = remove ! j"
  by (simp add: blank_at_def nth_append)

lemma blank_at_nth_self: "k \<le> length remove \<Longrightarrow> blank_at k remove ! k"
  by (simp add: blank_at_def nth_append)

lemma blank_at_update_after:
  "k \<le> length remove \<Longrightarrow> k \<le> j \<Longrightarrow> (blank_at k remove)[Suc j := True] = blank_at k (remove[j := True])"
  by (simp add: blank_at_def list_update_append Suc_diff_le drop_update_swap)

lemma blank_at_update_before:
  "k \<le> length remove \<Longrightarrow> j < k \<Longrightarrow> (blank_at k remove)[j := True] = blank_at k (remove[j := True])"
  by (simp add: blank_at_def list_update_append take_update_swap)

lemma makeTree_paths_after_blank:
  "k \<le> length remove \<Longrightarrow> k \<le> j \<Longrightarrow>
   makeTree_paths fs dir node ps (Suc j) skipNode (blank_at k remove) tb tree
     = marked_at k (makeTree_paths fs dir node ps j skipNode remove tb tree)"
proof (induction ps arbitrary: j skipNode remove tb tree)
  case Nil
  show ?case by (simp add: marked_at_def)
next
  case (Cons p ps)
  have len: "k \<le> length (remove[j := True])" using Cons.prems(1) by simp
  have le: "k \<le> Suc j" using Cons.prems(2) by simp
  note step = Cons.IH [OF Cons.prems(1) le] Cons.IH [OF len le]
  show ?case
    using Cons.prems
    by (auto simp: step blank_at_nth_after blank_at_update_after Let_def marked_at_def
        split: sum.splits)
qed

lemma makeTree_paths_blank:
  "k \<le> length remove \<Longrightarrow> j + length zs = k \<Longrightarrow>
   makeTree_paths fs dir node (zs @ [] # ys) j skipNode (blank_at k remove) tb tree
     = marked_at k (makeTree_paths fs dir node (zs @ ys) j skipNode remove tb tree)"
proof (induction zs arbitrary: j skipNode remove tb tree)
  case Nil
  then show ?case
    by (simp add: blank_at_nth_self makeTree_paths_after_blank)
next
  case (Cons z zs)
  have len: "k \<le> length (remove[j := True])" using Cons.prems(1) by simp
  have idx: "Suc j + length zs = k" and lt: "j < k" using Cons.prems(2) by simp_all
  note step = Cons.IH [OF Cons.prems(1) idx] Cons.IH [OF len idx]
  show ?case
    using Cons.prems(1) lt
    by (auto simp: step blank_at_nth_before blank_at_update_before Let_def marked_at_def
        split: sum.splits)
qed

lemma makeTree_paths_length:
  "makeTree_paths fs dir node ps j skipNode remove tb tree = Inr (s, remove', tb', tree')
   \<Longrightarrow> length remove' = length remove"
  by (induction ps arbitrary: j skipNode remove tb tree)
     (auto simp: Let_def split: if_splits sum.splits prod.splits)

lemma unremoved_blank:
  assumes "length xs \<le> length remove"
  shows "unremoved (xs @ [] # ys) (blank_at (length xs) remove) = unremoved (xs @ ys) remove"
proof -
  let ?k = "length xs" and ?n = "length ys"
  let ?ps' = "xs @ [] # ys" and ?ps = "xs @ ys"
  let ?rm' = "blank_at (length xs) remove"
  have "[0..<?k + Suc ?n] = [0..<?k] @ [?k..<?k + Suc ?n]"
    by (rule upt_add_eq_append) simp
  moreover have "[?k..<?k + Suc ?n] = ?k # [Suc ?k..<?k + Suc ?n]"
    by (rule upt_conv_Cons) simp
  moreover have "[Suc ?k..<?k + Suc ?n] = map Suc [?k..<?k + ?n]"
    by (simp only: map_Suc_upt add_Suc_right)
  ultimately have split': "[0..<length ?ps'] = [0..<?k] @ ?k # map Suc [?k..<?k + ?n]"
    by (simp del: upt_Suc)
  have "[0..<?k + ?n] = [0..<?k] @ [?k..<?k + ?n]"
    by (rule upt_add_eq_append) simp
  then have split: "[0..<length ?ps] = [0..<?k] @ [?k..<?k + ?n]"
    by simp
  have low: "map ((!) ?ps') (filter (\<lambda>j. \<not> ?rm' ! j) [0..<?k])
      = map ((!) ?ps) (filter (\<lambda>j. \<not> remove ! j) [0..<?k])"
  proof -
    have "filter (\<lambda>j. \<not> ?rm' ! j) [0..<?k] = filter (\<lambda>j. \<not> remove ! j) [0..<?k]"
      by (rule filter_cong) (use assms in \<open>auto simp: blank_at_nth_before\<close>)
    moreover have "map ((!) ?ps') (filter (\<lambda>j. \<not> remove ! j) [0..<?k])
        = map ((!) ?ps) (filter (\<lambda>j. \<not> remove ! j) [0..<?k])"
      by (rule map_cong) (auto simp: nth_append)
    ultimately show ?thesis by simp
  qed
  have high: "map ((!) ?ps') (filter (\<lambda>j. \<not> ?rm' ! j) (map Suc [?k..<?k + ?n]))
      = map ((!) ?ps) (filter (\<lambda>j. \<not> remove ! j) [?k..<?k + ?n])"
  proof -
    have "filter (\<lambda>j. \<not> ?rm' ! j) (map Suc [?k..<?k + ?n])
        = map Suc (filter (\<lambda>j. \<not> ?rm' ! Suc j) [?k..<?k + ?n])"
      by (simp add: filter_map comp_def)
    also have "filter (\<lambda>j. \<not> ?rm' ! Suc j) [?k..<?k + ?n] = filter (\<lambda>j. \<not> remove ! j) [?k..<?k + ?n]"
      by (rule filter_cong) (use assms in \<open>auto simp: blank_at_nth_after\<close>)
    finally have "map ((!) ?ps') (filter (\<lambda>j. \<not> ?rm' ! j) (map Suc [?k..<?k + ?n]))
        = map (\<lambda>j. ?ps' ! Suc j) (filter (\<lambda>j. \<not> remove ! j) [?k..<?k + ?n])"
      by (simp add: comp_def)
    also have "\<dots> = map ((!) ?ps) (filter (\<lambda>j. \<not> remove ! j) [?k..<?k + ?n])"
      by (rule map_cong) (auto simp: nth_append Suc_diff_le)
    finally show ?thesis .
  qed
  have self: "?rm' ! ?k" using assms by (rule blank_at_nth_self)
  show ?thesis
    unfolding unremoved_def split' split
    using low high self by simp
qed

lemma makeTree_nodes_blank:
  "length xs \<le> length remove \<Longrightarrow>
   makeTree_nodes H fs dir (xs @ [] # ys) n i nodes repo (blank_at (length xs) remove) tb tree
     = makeTree_nodes H fs dir (xs @ ys) n i nodes repo remove tb tree"
proof (induction nodes arbitrary: i repo remove tb tree)
  case Nil
  show ?case by simp
next
  case (Cons node rest)
  have loop: "makeTree_paths fs dir node (xs @ [] # ys) 0 False (blank_at (length xs) remove) tb tree
      = marked_at (length xs) (makeTree_paths fs dir node (xs @ ys) 0 False remove tb tree)"
    using Cons.prems by (simp add: makeTree_paths_blank)
  show ?case
  proof (cases "makeTree_paths fs dir node (xs @ ys) 0 False remove tb tree")
    case (Inl err)
    then show ?thesis by (simp add: loop marked_at_def)
  next
    case (Inr b)
    obtain s remove' tb1 tree1 where b: "b = (s, remove', tb1, tree1)" by (cases b) auto
    have len: "length xs \<le> length remove'"
      using makeTree_paths_length [of fs dir node "xs @ ys" 0 False remove tb tree] Inr b Cons.prems
      by simp
    have L: "makeTree_paths fs dir node (xs @ [] # ys) 0 False (blank_at (length xs) remove) tb tree
        = Inr (s, blank_at (length xs) remove', tb1, tree1)"
      using Inr b by (simp add: loop marked_at_def)
    show ?thesis
      unfolding makeTree_nodes.simps L Inr b
      by (simp add: Cons.IH [OF len] unremoved_blank [OF len] split: sum.splits prod.splits)
  qed
qed

lemma makeTree_blank:
  assumes "dir \<noteq> []" and "xs @ ys \<noteq> []"
  shows "makeTree H fs repo nodeID dir (xs @ [] # ys) = makeTree H fs repo nodeID dir (xs @ ys)"
proof -
  let ?f = "\<lambda>p. \<not> strings_HasPrefix p dir"
  have "\<not> strings_HasPrefix [] dir" using assms(1) by (simp add: strings_HasPrefix_def)
  then have "map ?f (xs @ [] # ys) = blank_at (length xs) (map ?f (xs @ ys))"
    by (simp add: blank_at_def)
  moreover have "length xs \<le> length (map ?f (xs @ ys))" by simp
  ultimately have eq: "\<And>n i nodes repo tb tree.
      makeTree_nodes H fs dir (xs @ [] # ys) n i nodes repo (map ?f (xs @ [] # ys)) tb tree
      = makeTree_nodes H fs dir (xs @ ys) n i nodes repo (map ?f (xs @ ys)) tb tree"
    using makeTree_nodes_blank by metis
  have A: "(length (xs @ [] # ys) = 0) = False" by simp
  have B: "(length (xs @ ys) = 0) = False" using assms(2) by simp
  show ?thesis
    by (simp only: makeTree.simps [of _ _ _ _ _ "xs @ [] # ys"]
        makeTree.simps [of _ _ _ _ _ "xs @ ys"] A B if_False eq NewTree_def)
qed

lemma makeTree_no_blanks:
  assumes "dir \<noteq> []"
  shows "filter (\<lambda>p. p \<noteq> []) ps \<noteq> [] \<Longrightarrow>
    makeTree H fs repo nodeID dir ps = makeTree H fs repo nodeID dir (filter (\<lambda>p. p \<noteq> []) ps)"
proof (induction "length ps" arbitrary: ps rule: less_induct)
  case less
  show ?case
  proof (cases "[] \<in> set ps")
    case False
    then have "filter (\<lambda>p. p \<noteq> []) ps = ps" by (auto simp: filter_id_conv)
    then show ?thesis by simp
  next
    case True
    then obtain xs ys where ps: "ps = xs @ [] # ys" by (auto dest: split_list)
    have keep: "filter (\<lambda>p. p \<noteq> []) (xs @ ys) = filter (\<lambda>p. p \<noteq> []) ps" by (simp add: ps)
    with less.prems have ne: "xs @ ys \<noteq> []" by auto
    have first: "makeTree H fs repo nodeID dir ps = makeTree H fs repo nodeID dir (xs @ ys)"
      unfolding ps using assms ne by (rule makeTree_blank)
    have shorter: "length (xs @ ys) < length ps" by (simp add: ps)
    have left: "filter (\<lambda>p. p \<noteq> []) (xs @ ys) \<noteq> []" using less.prems keep by simp
    have "makeTree H fs repo nodeID dir (xs @ ys)
        = makeTree H fs repo nodeID dir (filter (\<lambda>p. p \<noteq> []) (xs @ ys))"
      using shorter left by (rule less.hyps)
    with first keep show ?thesis by (simp only:)
  qed
qed





section \<open>The claims\<close>

subsection \<open>Empty change-path list\<close>

text \<open>
  Claim C2. For every prior tree identifier, every directory prefix, every repository
  and every filesystem, \<^verbatim>\<open>makeTree\<close> called with the empty change-path list returns the
  identifier it was given and leaves the repository as it was: the store holds the same
  objects and no call was made on the storage layer (no tree load, no tree save, no
  save of the encoded form).
\<close>

theorem makeTree_empty_paths:
  "makeTree H fs repo nodeID dir [] = (repo, Inr nodeID)"
  by (simp add: makeTree.simps)

subsection \<open>The guard of runIncremental\<close>




subsection \<open>The prior snapshot is left as it was\<close>

text \<open>
  Claim C1. Whatever the prior tree identifier, the directory prefix and the change-path
  list, and whether \<^verbatim>\<open>makeTree\<close> completes or fails, every tree object that the store
  held before the call is held unchanged under the same identifier after it, and loading
  that identifier afterwards returns the same tree: the merge adds objects and neither
  overwrites nor deletes one.
\<close>

theorem makeTree_prior_untouched:
  assumes "trees repo i = Some t"
  shows "trees (fst (makeTree H fs repo nodeID dir includePaths)) i = Some t
       \<and> snd (LoadTree (fst (makeTree H fs repo nodeID dir includePaths)) i) = Inr t"
proof -
  have "trees (fst (makeTree H fs repo nodeID dir includePaths)) i = Some t"
    using makeTree_keeps [of repo H fs nodeID dir includePaths] assms
    by (auto simp: map_le_def dom_def)
  then show ?thesis by (simp add: LoadTree_def Let_def)
qed

theorem makeTree_prior_untouched_witness:
  "trees \<lparr>trees = [1 \<mapsto> [file_node ''b'', file_node ''d'']], calls = []\<rparr> 1
     = Some [file_node ''b'', file_node ''d'']
   \<and> trees (fst (makeTree size_hash (files_on_disk [''/x/c''])
        \<lparr>trees = [1 \<mapsto> [file_node ''b'', file_node ''d'']], calls = []\<rparr> 1 ''/x/'' [''/x/c''])) 1
     = Some [file_node ''b'', file_node ''d'']
   \<and> trees (fst (makeTree size_hash (files_on_disk [''/x/c''])
        \<lparr>trees = [1 \<mapsto> [file_node ''b'', file_node ''d'']], calls = []\<rparr> 1 ''/x/'' [''/x/c''])) 103
     = Some [file_node ''b'', \<lparr>Name = ''c'', Type = ''file'', Meta = 1, Subtree = None\<rparr>,
             file_node ''d'']"
proof -
  let ?r = "\<lparr>trees = [1 \<mapsto> [file_node ''b'', file_node ''d'']], calls = []\<rparr>"
  have h: "trees ?r 1 = Some [file_node ''b'', file_node ''d'']" by simp
  have new: "trees (fst (makeTree size_hash (files_on_disk [''/x/c'']) ?r 1 ''/x/'' [''/x/c''])) 103
     = Some [file_node ''b'', \<lparr>Name = ''c'', Type = ''file'', Meta = 1, Subtree = None\<rparr>,
             file_node ''d'']"
    by (simp add: run_defs)
  show ?thesis
    using h new
      makeTree_prior_untouched [OF h, of size_hash "files_on_disk [''/x/c'']" 1 "''/x/''" "[''/x/c'']"]
    by simp
qed

subsection \<open>Order of the names\<close>

text \<open>
  Claim C3. For every input, every tree that \<^verbatim>\<open>makeTree\<close> and its recursive calls pass to
  \<^verbatim>\<open>SaveTree\<close> has its names in strictly ascending order, hence no name twice; and
  when the merge succeeds, the identifier returned is the identifier of such a tree,
  saved during the call, unless the change-path list is empty, where it is the prior
  identifier and no tree is built.
\<close>

theorem makeTree_trees_sorted:
  "(\<forall>t \<in> set (saved_during repo (fst (makeTree H fs repo nodeID dir includePaths))). name_sorted t)
   \<and> (\<forall>newID. snd (makeTree H fs repo nodeID dir includePaths) = Inr newID
        \<longrightarrow> (includePaths = [] \<and> newID = nodeID)
          \<or> (\<exists>t. name_sorted t \<and> newID = H t
               \<and> t \<in> set (saved_during repo (fst (makeTree H fs repo nodeID dir includePaths)))))"
proof (intro conjI allI impI ballI)
  fix t
  assume "t \<in> set (saved_during repo (fst (makeTree H fs repo nodeID dir includePaths)))"
  with makeTree_saves_sorted show "name_sorted t" by (rule saved_during_sorted)
next
  fix newID
  assume ok: "snd (makeTree H fs repo nodeID dir includePaths) = Inr newID"
  show "(includePaths = [] \<and> newID = nodeID)
      \<or> (\<exists>t. name_sorted t \<and> newID = H t
            \<and> t \<in> set (saved_during repo (fst (makeTree H fs repo nodeID dir includePaths))))"
  proof (cases "includePaths = []")
    case True
    with ok show ?thesis by simp
  next
    case False
    then show ?thesis using makeTree_returns_saved [OF False ok] by blast
  qed
qed

theorem makeTree_trees_sorted_witness:
  "[file_node ''b'', \<lparr>Name = ''c'', Type = ''file'', Meta = 1, Subtree = None\<rparr>, file_node ''d'']
     \<in> set (saved_during \<lparr>trees = [1 \<mapsto> [file_node ''b'', file_node ''d'']], calls = []\<rparr>
          (fst (makeTree size_hash (files_on_disk [''/x/c''])
             \<lparr>trees = [1 \<mapsto> [file_node ''b'', file_node ''d'']], calls = []\<rparr> 1 ''/x/'' [''/x/c''])))
   \<and> snd (makeTree size_hash (files_on_disk [''/x/c''])
             \<lparr>trees = [1 \<mapsto> [file_node ''b'', file_node ''d'']], calls = []\<rparr> 1 ''/x/'' [''/x/c''])
       = Inr 103
   \<and> name_sorted
       [file_node ''b'', \<lparr>Name = ''c'', Type = ''file'', Meta = 1, Subtree = None\<rparr>, file_node ''d'']"
proof -
  let ?r = "\<lparr>trees = [1 \<mapsto> [file_node ''b'', file_node ''d'']], calls = []\<rparr>"
  let ?c = "\<lparr>Name = ''c'', Type = ''file'', Meta = 1, Subtree = None\<rparr>"
  let ?t = "[file_node ''b'', ?c, file_node ''d'']"
  have run: "makeTree size_hash (files_on_disk [''/x/c'']) ?r 1 ''/x/'' [''/x/c'']
      = (\<lparr>trees = [1 \<mapsto> [file_node ''b'', file_node ''d''], 103 \<mapsto> ?t],
          calls = [LoadedTree 1, SavedTree 103 ?t, SavedUnpacked ?t]\<rparr>, Inr 103)"
    by (simp add: run_defs)
  have mem: "?t \<in> set (saved_during ?r
      (fst (makeTree size_hash (files_on_disk [''/x/c'']) ?r 1 ''/x/'' [''/x/c''])))"
    by (simp add: run saved_during_def)
  from makeTree_trees_sorted [of ?r size_hash "files_on_disk [''/x/c'']" 1 "''/x/''" "[''/x/c'']"] mem
  have "name_sorted ?t" by blast
  with mem run show ?thesis by simp
qed

subsection \<open>Insertion between two entries\<close>

text \<open>
  Claim C7. When the prior tree of the directory \<^verbatim>\<open>/x/\<close> holds the file nodes \<^verbatim>\<open>b\<close> and
  \<^verbatim>\<open>d\<close> and the change-path list is \<^verbatim>\<open>/x/c\<close>, a path that exists on disk, the merge
  loads the prior tree, saves the tree \<^verbatim>\<open>b\<close>, \<^verbatim>\<open>c\<close>, \<^verbatim>\<open>d\<close> in this order and returns its
  identifier; \<^verbatim>\<open>b\<close> and \<^verbatim>\<open>d\<close> are the prior nodes and \<^verbatim>\<open>c\<close> is built from the file
  information of the path.
\<close>

theorem makeTree_insert_between:
  assumes "trees repo nodeID = Some [b, d]"
    and "Name b = ''b''" and "Type b = ''file''"
    and "Name d = ''d''" and "Type d = ''file''"
    and "fs ''/x/c'' = Inr fi"
  shows "snd (makeTree H fs repo nodeID ''/x/'' [''/x/c''])
           = Inr (H [b, \<lparr>Name = ''c'', Type = fi_type fi, Meta = fi_meta fi, Subtree = None\<rparr>, d])
       \<and> calls (fst (makeTree H fs repo nodeID ''/x/'' [''/x/c'']))
           = calls repo @ [LoadedTree nodeID,
               SavedTree (H [b, \<lparr>Name = ''c'', Type = fi_type fi, Meta = fi_meta fi, Subtree = None\<rparr>, d])
                 [b, \<lparr>Name = ''c'', Type = fi_type fi, Meta = fi_meta fi, Subtree = None\<rparr>, d],
               SavedUnpacked
                 [b, \<lparr>Name = ''c'', Type = fi_type fi, Meta = fi_meta fi, Subtree = None\<rparr>, d]]"
  using assms by (simp add: run_defs split: option.splits)

theorem makeTree_insert_between_witness:
  "makeTree size_hash (files_on_disk [''/x/c''])
      \<lparr>trees = [1 \<mapsto> [file_node ''b'', file_node ''d'']], calls = []\<rparr> 1 ''/x/'' [''/x/c'']
   = (\<lparr>trees = [1 \<mapsto> [file_node ''b'', file_node ''d''],
               103 \<mapsto> [file_node ''b'',
                          \<lparr>Name = ''c'', Type = ''file'', Meta = 1, Subtree = None\<rparr>,
                          file_node ''d'']],
       calls = [LoadedTree 1,
                SavedTree 103 [file_node ''b'',
                          \<lparr>Name = ''c'', Type = ''file'', Meta = 1, Subtree = None\<rparr>,
                          file_node ''d''],
                SavedUnpacked [file_node ''b'',
                          \<lparr>Name = ''c'', Type = ''file'', Meta = 1, Subtree = None\<rparr>,
                          file_node ''d'']]\<rparr>,
      Inr 103)"
proof -
  let ?r = "\<lparr>trees = [1 \<mapsto> [file_node ''b'', file_node ''d'']], calls = []\<rparr>"
  let ?fs = "files_on_disk [''/x/c'']"
  have h1: "trees ?r 1 = Some [file_node ''b'', file_node ''d'']" by simp
  have h2: "Name (file_node ''b'') = ''b''" and h3: "Type (file_node ''b'') = ''file''"
    and h4: "Name (file_node ''d'') = ''d''" and h5: "Type (file_node ''d'') = ''file''"
    by (simp_all add: file_node_def)
  have h6: "?fs ''/x/c'' = Inr \<lparr>fi_type = ''file'', fi_meta = 1\<rparr>"
    by (simp add: files_on_disk_def)
  have store: "trees (fst (makeTree size_hash ?fs ?r 1 ''/x/'' [''/x/c'']))
      = [1 \<mapsto> [file_node ''b'', file_node ''d''],
         103 \<mapsto> [file_node ''b'', \<lparr>Name = ''c'', Type = ''file'', Meta = 1, Subtree = None\<rparr>,
                    file_node ''d'']]"
    by (simp add: run_defs)
  from makeTree_insert_between [where fs = ?fs and H = size_hash, OF h1 h2 h3 h4 h5 h6] store
  show ?thesis
    by (cases "makeTree size_hash ?fs ?r 1 ''/x/'' [''/x/c'']") (simp add: size_hash_def)
qed

subsection \<open>Deletion of an entry\<close>

text \<open>
  Claim C4, evaluated. The prior tree of \<^verbatim>\<open>/\<close> holds the files \<^verbatim>\<open>a\<close> and \<^verbatim>\<open>b\<close>, the
  change-path list is \<^verbatim>\<open>/a\<close> and \<^verbatim>\<open>/a\<close> no longer exists on disk. The path is not marked
  in \<^verbatim>\<open>remove\<close> when the deletion is detected, so the loop for the node \<^verbatim>\<open>b\<close> takes it for
  a new entry to insert before \<^verbatim>\<open>b\<close>; \<^verbatim>\<open>addNode\<close> fails and the merge returns the error of
  \<^verbatim>\<open>os.Stat\<close>, saving nothing.
\<close>

theorem makeTree_delete_before_sibling_fails:
  "makeTree size_hash (files_on_disk [])
     \<lparr>trees = [1 \<mapsto> [file_node ''a'', file_node ''b'']], calls = []\<rparr> 1 ''/'' [''/a'']
   = (\<lparr>trees = [1 \<mapsto> [file_node ''a'', file_node ''b'']], calls = [LoadedTree 1]\<rparr>, Inl NotExist)"
  by (simp add: run_defs)

subsection \<open>Change-paths after the last entry\<close>

text \<open>
  Claim C6, evaluated. The prior tree of \<^verbatim>\<open>/\<close> holds the single file \<^verbatim>\<open>a\<close>, the
  change-path list is \<^verbatim>\<open>/b\<close> and \<^verbatim>\<open>/b\<close> exists on disk. The loop that appends the
  remaining change-paths stands in the branch of a directory node, after the
  \<^verbatim>\<open>continue\<close> of the other nodes: the last node is a file, the loop is not reached, and
  the tree saved holds \<^verbatim>\<open>a\<close> alone. With an empty prior tree the loop over the nodes
  does not run at all and the tree saved is empty.
\<close>

theorem makeTree_append_after_file_missing:
  "makeTree size_hash (files_on_disk [''/b''])
     \<lparr>trees = [1 \<mapsto> [file_node ''a'']], calls = []\<rparr> 1 ''/'' [''/b'']
   = (\<lparr>trees = [1 \<mapsto> [file_node ''a''], 101 \<mapsto> [file_node ''a'']],
       calls = [LoadedTree 1, SavedTree 101 [file_node ''a''], SavedUnpacked [file_node ''a'']]\<rparr>,
      Inr 101)
   \<and> makeTree size_hash (files_on_disk [''/b''])
       \<lparr>trees = [1 \<mapsto> []], calls = []\<rparr> 1 ''/'' [''/b'']
     = (\<lparr>trees = [1 \<mapsto> [], 100 \<mapsto> []],
         calls = [LoadedTree 1, SavedTree 100 [], SavedUnpacked []]\<rparr>, Inr 100)"
  by (simp add: run_defs)

subsection \<open>A change-path that does not exist on disk\<close>




subsection \<open>Directories that are loaded and saved again\<close>

text \<open>
  Claim C8 as stated fails. The root holds the directories \<^verbatim>\<open>a\<close> and \<^verbatim>\<open>b\<close> and the only
  change-path is \<^verbatim>\<open>/b/x\<close>. The directory \<^verbatim>\<open>a\<close> lies on no path from the root to a
  changed file, yet its tree (identifier 2) is loaded and a tree is saved for it: the
  recursive call for \<^verbatim>\<open>a\<close> receives the change-paths not yet consumed, a non-empty list,
  and discards them only after the load.
\<close>

theorem makeTree_sibling_directory_loaded:
  "calls (fst (makeTree size_hash (files_on_disk [''/b/x''])
     \<lparr>trees = [1 \<mapsto> [dir_node ''a'' 2, dir_node ''b'' 3], 2 \<mapsto> [file_node ''k''],
                3 \<mapsto> [file_node ''x'', file_node ''y'']], calls = []\<rparr> 1 ''/'' [''/b/x'']))
   = [LoadedTree 1,
      LoadedTree 2, SavedTree 101 [file_node ''k''], SavedUnpacked [file_node ''k''],
      LoadedTree 3,
      SavedTree 102 [\<lparr>Name = ''x'', Type = ''file'', Meta = 1, Subtree = None\<rparr>, file_node ''y''],
      SavedUnpacked [\<lparr>Name = ''x'', Type = ''file'', Meta = 1, Subtree = None\<rparr>, file_node ''y''],
      SavedTree 102 [dir_node ''a'' 101, dir_node ''b'' 102],
      SavedUnpacked [dir_node ''a'' 101, dir_node ''b'' 102]]"
  by (simp add: run_defs)

text \<open>
  Claim C8, amended. A subtree whose call receives no change-path keeps its identifier
  without a load or a save (this is the fast path). A directory whose call receives a
  non-empty list of which no path has the directory's prefix is itself loaded once and
  saved again, and nothing below it is loaded: when its tree is in order, the tree
  saved is the prior tree with every entry carried over, each subdirectory under the
  identifier it had, and the identifier returned is that of this tree; it is the prior
  identifier when every subdirectory had a subtree and the prior identifier is the
  identifier of the prior tree's contents.
\<close>

theorem makeTree_no_path_below:
  assumes ne: "includePaths \<noteq> []"
    and none: "\<forall>p \<in> set includePaths. \<not> strings_HasPrefix p dir"
    and prior: "trees repo nodeID = Some curTree"
    and sorted: "name_sorted curTree"
  shows "calls (fst (makeTree H fs repo nodeID dir includePaths))
           = calls repo @ [LoadedTree nodeID,
                           SavedTree (H (map carried curTree)) (map carried curTree),
                           SavedUnpacked (map carried curTree)]
       \<and> snd (makeTree H fs repo nodeID dir includePaths) = Inr (H (map carried curTree))
       \<and> ((\<forall>n \<in> set curTree. Type n = ''dir'' \<longrightarrow> Subtree n \<noteq> None) \<and> H curTree = nodeID
            \<longrightarrow> snd (makeTree H fs repo nodeID dir includePaths) = Inr nodeID)"
proof -
  let ?repo1 = "repo\<lparr>calls := calls repo @ [LoadedTree nodeID]\<rparr>"
  let ?remove = "map (\<lambda>p. \<not> strings_HasPrefix p dir) includePaths"
  have L: "LoadTree repo nodeID = (?repo1, Inr curTree)"
    using prior by (simp add: LoadTree_def Let_def)
  have all: "\<And>k. k < length includePaths \<Longrightarrow> ?remove ! k"
    using none by simp
  have "name_sorted (NewTree (length curTree + length includePaths) @ curTree)"
    using sorted by (simp add: NewTree_def)
  from makeTree_nodes_all_removed [of includePaths ?remove, OF all this]
  have N: "makeTree_nodes H fs dir includePaths (length curTree) 0 curTree ?repo1 ?remove
      NewTreeJSONBuilder (NewTree (length curTree + length includePaths))
      = (?repo1, Inr (map carried curTree, map carried curTree))"
    by (simp add: NewTree_def NewTreeJSONBuilder_def)
  have run: "makeTree H fs repo nodeID dir includePaths
      = saveNewTree H ?repo1 (map carried curTree) (map carried curTree)"
    using ne L N by (simp add: makeTree.simps)
  have same: "(\<forall>n \<in> set curTree. Type n = ''dir'' \<longrightarrow> Subtree n \<noteq> None) \<Longrightarrow> map carried curTree = curTree"
    by (rule map_idI) (auto simp: carried_def)
  show ?thesis
    using same
    by (auto simp: run saveNewTree_def Finalize_def SaveTree_def SaveUnpacked_def Let_def
        split: option.splits)
qed

theorem makeTree_no_path_below_witness:
  "makeTree size_hash (files_on_disk [''/b/x''])
     \<lparr>trees = [102 \<mapsto> [dir_node ''d'' 7, file_node ''k'']], calls = []\<rparr> 102 ''/a/'' [''/b/x'']
   = (\<lparr>trees = [102 \<mapsto> [dir_node ''d'' 7, file_node ''k'']],
       calls = [LoadedTree 102, SavedTree 102 [dir_node ''d'' 7, file_node ''k''],
                SavedUnpacked [dir_node ''d'' 7, file_node ''k'']]\<rparr>, Inr 102)"
proof -
  let ?fs = "files_on_disk [''/b/x'']"
  let ?t = "[dir_node ''d'' 7, file_node ''k'']"
  let ?r = "\<lparr>trees = [102 \<mapsto> ?t], calls = []\<rparr>"
  have ne: "[''/b/x''] \<noteq> []" by simp
  have none: "\<forall>p \<in> set [''/b/x'']. \<not> strings_HasPrefix p ''/a/''"
    by (simp add: strings_HasPrefix_def)
  have prior: "trees ?r 102 = Some ?t" by simp
  have sorted: "name_sorted ?t" by (simp add: name_sorted_def dir_node_def file_node_def)
  have whole: "(\<forall>n \<in> set ?t. Type n = ''dir'' \<longrightarrow> Subtree n \<noteq> None) \<and> size_hash ?t = 102"
    by (simp add: dir_node_def file_node_def size_hash_def)
  have same: "map carried ?t = ?t" by (simp add: carried_def dir_node_def file_node_def)
  have store: "trees (fst (makeTree size_hash ?fs ?r 102 ''/a/'' [''/b/x''])) = [102 \<mapsto> ?t]"
    by (simp add: run_defs)
  from makeTree_no_path_below [where fs = ?fs and H = size_hash, OF ne none prior sorted] whole same store
  show ?thesis
    by (cases "makeTree size_hash ?fs ?r 102 ''/a/'' [''/b/x'']") (simp add: size_hash_def)
qed

subsection \<open>Empty strings in the change-path list\<close>

text \<open>
  Claim C10 as stated fails. A list that holds only the empty string is not the empty
  list: the fast path is not taken and the prior tree is loaded, rebuilt and saved. When
  the prior tree cannot be loaded the merge fails, whereas the merge of the list without
  the empty string returns the prior identifier; when it can be loaded, the storage
  layer receives a load and two saves that the merge of the empty list does not make.
\<close>

theorem makeTree_only_blank_path:
  "makeTree size_hash (files_on_disk []) \<lparr>trees = Map.empty, calls = []\<rparr> 1 ''/'' [[]]
     = (\<lparr>trees = Map.empty, calls = [LoadedTree 1]\<rparr>, Inl TreeNotFound)
   \<and> makeTree size_hash (files_on_disk []) \<lparr>trees = Map.empty, calls = []\<rparr> 1 ''/''
       (filter (\<lambda>p. p \<noteq> []) [[]])
     = (\<lparr>trees = Map.empty, calls = []\<rparr>, Inr 1)
   \<and> calls (fst (makeTree size_hash (files_on_disk [])
        \<lparr>trees = [101 \<mapsto> [file_node ''a'']], calls = []\<rparr> 101 ''/'' [[]]))
     = [LoadedTree 101, SavedTree 101 [file_node ''a''], SavedUnpacked [file_node ''a'']]
   \<and> calls (fst (makeTree size_hash (files_on_disk [])
        \<lparr>trees = [101 \<mapsto> [file_node ''a'']], calls = []\<rparr> 101 ''/''
        (filter (\<lambda>p. p \<noteq> []) [[]])))
     = []"
  by (simp add: run_defs)

text \<open>
  Claim C10, amended. For a non-empty directory prefix, the empty strings of the
  change-path list, wherever they stand, have no effect as long as the list holds
  another entry: the merge returns the same result and leaves the repository in the same
  state (same objects, same calls on the storage layer) as the merge of the list without
  its empty strings.
\<close>

theorem makeTree_blank_paths_ignored:
  assumes "dir \<noteq> []" and "filter (\<lambda>p. p \<noteq> []) includePaths \<noteq> []"
  shows "makeTree H fs repo nodeID dir includePaths
       = makeTree H fs repo nodeID dir (filter (\<lambda>p. p \<noteq> []) includePaths)"
  using assms by (rule makeTree_no_blanks)

theorem makeTree_blank_paths_ignored_witness:
  "makeTree size_hash (files_on_disk [''/b'']) \<lparr>trees = [1 \<mapsto> [file_node ''c'']], calls = []\<rparr>
     1 ''/'' [[], ''/b'', []]
   = (\<lparr>trees = [1 \<mapsto> [file_node ''c''],
               102 \<mapsto> [\<lparr>Name = ''b'', Type = ''file'', Meta = 1, Subtree = None\<rparr>, file_node ''c'']],
       calls = [LoadedTree 1,
                SavedTree 102 [\<lparr>Name = ''b'', Type = ''file'', Meta = 1, Subtree = None\<rparr>,
                               file_node ''c''],
                SavedUnpacked [\<lparr>Name = ''b'', Type = ''file'', Meta = 1, Subtree = None\<rparr>,
                               file_node ''c'']]\<rparr>, Inr 102)"
proof -
  let ?fs = "files_on_disk [''/b'']"
  let ?r = "\<lparr>trees = [1 \<mapsto> [file_node ''c'']], calls = []\<rparr>"
  have dir: "''/'' \<noteq> []" by simp
  have rest: "filter (\<lambda>p. p \<noteq> []) [[], ''/b'', []] \<noteq> []" by simp
  have short: "makeTree size_hash ?fs ?r 1 ''/'' [''/b'']
      = (\<lparr>trees = [1 \<mapsto> [file_node ''c''],
               102 \<mapsto> [\<lparr>Name = ''b'', Type = ''file'', Meta = 1, Subtree = None\<rparr>, file_node ''c'']],
          calls = [LoadedTree 1,
                SavedTree 102 [\<lparr>Name = ''b'', Type = ''file'', Meta = 1, Subtree = None\<rparr>,
                               file_node ''c''],
                SavedUnpacked [\<lparr>Name = ''b'', Type = ''file'', Meta = 1, Subtree = None\<rparr>,
                               file_node ''c'']]\<rparr>, Inr 102)"
    by (simp add: run_defs)
  from makeTree_blank_paths_ignored [where fs = ?fs and H = size_hash and repo = ?r and nodeID = 1,
      OF dir rest] short
  show ?thesis by simp
qed

end
